theory Spec2Isabelle
  imports Main
begin

section \<open>The tablature decoder of tab_parser.py\<close>

text \<open>
  The class \<open>Tab\<close> of \<^verbatim>\<open>tab_parser.py\<close> is embedded as a record of its eight fields,
  its methods as functions that take the object and return the updated object. Every
  exception the methods can raise is an \<open>IndexError\<close>: an index past the end of a
  list or of a string.
\<close>

datatype error = IndexError

record Tab =
  symbols :: "string list"
  notes_sharps :: "string list"
  notes_flat :: "string list"
  tab :: "string list"
  tab_roots :: "string list"
  divisions :: int
  timesignature :: string
  strings :: int

text \<open>\<^verbatim>\<open>Tab.__init__(self, divisions, timesignature, strings)\<close>.\<close>

definition Tab_init :: "int \<Rightarrow> string \<Rightarrow> int \<Rightarrow> Tab" where
  "Tab_init d ts s =
     \<lparr> symbols = [''/'', [CHR 0x5C], ''~'', ''h'', ''p'', ''b''],
       notes_sharps =
         [''C'', ''C#'', ''D'', ''D#'', ''E'', ''F'', ''F#'', ''G'', ''G#'', ''A'', ''A#'', ''B''],
       notes_flat =
         [''C'', ''Db'', ''D'', ''Eb'', ''E'', ''F'', ''Gb'', ''G'', ''Ab'', ''A'', ''Bb'', ''B''],
       tab = [],
       tab_roots = [],
       divisions = d,
       timesignature = ts,
       strings = s \<rparr>"

subsection \<open>Reading the lines of the file\<close>

text \<open>
  \<^verbatim>\<open>f.readlines()\<close> on the text of the file (after the translation of line ends to
  \<open>\<newline>\<close> that text mode does): every line keeps its terminator, only the last line
  can lack one, and no line is empty.
\<close>

fun readlines_from :: "string \<Rightarrow> string \<Rightarrow> string list" where
  "readlines_from cur [] = (if cur = [] then [] else [cur])"
| "readlines_from cur (c # cs) =
     (if c = CHR 0x0A then (cur @ [c]) # readlines_from [] cs
      else readlines_from (cur @ [c]) cs)"

definition readlines :: "string \<Rightarrow> string list" where
  "readlines inp = readlines_from [] inp"

subsection \<open>The filtering loop\<close>

text \<open>
  \<^verbatim>\<open>
  for line in tab:
      if line == "\n":
          tab.remove(line)
      elif line[0] == "[":
          tab.remove(line)
  \<close>
  The loop walks the list by an index that grows by one at every step, whatever was
  removed, and stops when the index reaches the current length. \<open>tab.remove(line)\<close>
  deletes the first element equal to \<open>line\<close>, which is \<^const>\<open>remove1\<close>. \<open>line[0]\<close>
  raises on an empty string.
\<close>

function remove_loop :: "nat \<Rightarrow> string list \<Rightarrow> error + string list" where
  "remove_loop i tb =
     (if length tb \<le> i then Inr tb
      else if tb ! i = ''\<newline>'' then remove_loop (Suc i) (remove1 (tb ! i) tb)
      else if tb ! i = [] then Inl IndexError
      else if hd (tb ! i) = CHR ''['' then remove_loop (Suc i) (remove1 (tb ! i) tb)
      else remove_loop (Suc i) tb)"
  by pat_completeness auto
termination
  by (relation "measure (\<lambda>(i, tb). length tb - i)") (auto simp: length_remove1)

definition remove_lines :: "string list \<Rightarrow> error + string list" where
  "remove_lines tb = remove_loop 0 tb"

subsection \<open>Root notes, trimming, pipes and the interleaving\<close>

text \<open>
  \<^verbatim>\<open>for i in range(self.strings): self.tab_roots.append(tab[i][0])\<close>, the indices
  given as a list. The roots appended before a failing index stay in the object.
\<close>

fun append_roots :: "string list \<Rightarrow> nat list \<Rightarrow> string list \<Rightarrow> error option \<times> string list" where
  "append_roots tb [] roots = (None, roots)"
| "append_roots tb (i # is) roots =
     (if i < length tb \<and> tb ! i \<noteq> []
      then append_roots tb is (roots @ [[hd (tb ! i)]])
      else (Some IndexError, roots))"

text \<open>The roots that the loop over \<^verbatim>\<open>range(n)\<close> appends when it does not raise:
  \<^verbatim>\<open>tab[i][0]\<close> for every \<open>i\<close> below \<open>n\<close>.\<close>

definition new_roots :: "string list \<Rightarrow> int \<Rightarrow> string list" where
  "new_roots r n = map (\<lambda>i. [hd (r ! i)]) [0..<nat n]"

text \<open>\<^verbatim>\<open>tab[i][2:-1]\<close>: the characters from index 2 up to, not including, the last one.\<close>

definition trim :: "string \<Rightarrow> string" where
  "trim line = drop 2 (take (length line - 1) line)"

text \<open>\<^verbatim>\<open>s.replace("|", "")\<close>.\<close>

definition removePipes :: "string \<Rightarrow> string" where
  "removePipes s = filter (\<lambda>c. c \<noteq> CHR ''|'') s"

text \<open>\<^verbatim>\<open>range(start, stop, step)\<close> for a positive step; it is used under
  \<^verbatim>\<open>for i in range(self.strings)\<close> only, where \<open>self.strings\<close> is positive.\<close>

function range3 :: "nat \<Rightarrow> nat \<Rightarrow> nat \<Rightarrow> nat list" where
  "range3 start stop step =
     (if step = 0 \<or> stop \<le> start then [] else start # range3 (start + step) stop step)"
  by pat_completeness auto
termination
  by (relation "measure (\<lambda>(start, stop, step). stop - start)") auto

text \<open>\<^verbatim>\<open>"".join(tab[j] for j in range(i, len(tab), self.strings))\<close>\<close>

definition group :: "string list \<Rightarrow> nat \<Rightarrow> nat \<Rightarrow> string" where
  "group tb step i = concat (map (\<lambda>j. tb ! j) (range3 i (length tb) step))"

definition interleave :: "string list \<Rightarrow> int \<Rightarrow> string list" where
  "interleave tb n = map (group tb (nat n)) [0..<nat n]"

subsection \<open>read and print\<close>

text \<open>
  \<^verbatim>\<open>Tab.read\<close> on the lines of the file; opening the file is left to the caller of
  the model, which passes the text. The result is the returned list or the exception,
  together with the object as the call leaves it: the roots appended before an exception
  stay, and \<open>self.tab\<close> is assigned only when the call returns.
\<close>

definition read_lines :: "Tab \<Rightarrow> string list \<Rightarrow> (error + string list) \<times> Tab" where
  "read_lines t ls =
     (case remove_lines ls of
        Inl e \<Rightarrow> (Inl e, t)
      | Inr tb \<Rightarrow>
          (case append_roots tb [0..<nat (strings t)] (tab_roots t) of
             (Some e, roots) \<Rightarrow> (Inl e, t\<lparr>tab_roots := roots\<rparr>)
           | (None, roots) \<Rightarrow>
               (let result = interleave (map removePipes (map trim tb)) (strings t)
                in (Inr result, t\<lparr>tab := result, tab_roots := roots\<rparr>))))"

definition read :: "Tab \<Rightarrow> string \<Rightarrow> (error + string list) \<times> Tab" where
  "read t inp = read_lines t (readlines inp)"

text \<open>
  \<^verbatim>\<open>Tab.print\<close>: the lines written to the output, in order, and the exception that
  stopped the loop, if one did (\<open>self.tab_roots[i]\<close> past the end of the roots).
\<close>

fun print_loop :: "string list \<Rightarrow> string list \<Rightarrow> nat list \<Rightarrow> string list \<Rightarrow> error option \<times> string list" where
  "print_loop roots seqs [] out = (None, out)"
| "print_loop roots seqs (i # is) out =
     (if i < length roots
      then print_loop roots seqs is (out @ [roots ! i @ ''|'' @ seqs ! i])
      else (Some IndexError, out))"

definition print_lines :: "string list \<Rightarrow> string list \<Rightarrow> error option \<times> string list" where
  "print_lines roots seqs = print_loop roots seqs [0..<length seqs] []"

definition print :: "Tab \<Rightarrow> error option \<times> string list" where
  "print t = print_lines (tab_roots t) (tab t)"

text \<open>
  A caller that calls \<^verbatim>\<open>read\<close> on the same object once for every text of a list,
  in order, and stops at the first exception: the lists the calls returned and the
  object after the last call.
\<close>

fun read_all :: "Tab \<Rightarrow> string list \<Rightarrow> error + (string list list \<times> Tab)" where
  "read_all t [] = Inr ([], t)"
| "read_all t (x # xs) =
     (case read t x of
        (Inl e, t') \<Rightarrow> Inl e
      | (Inr res, t') \<Rightarrow>
          (case read_all t' xs of
             Inl e \<Rightarrow> Inl e
           | Inr (rs, t'') \<Rightarrow> Inr (res # rs, t'')))"

text \<open>
  The object after a caller has called \<^verbatim>\<open>read\<close> on it once for every text of a
  list, in order, going on after a call that raised.
\<close>

definition after_reads :: "Tab \<Rightarrow> string list \<Rightarrow> Tab" where
  "after_reads t inps = foldl (\<lambda>t' x. snd (read t' x)) t inps"

subsection \<open>The lines the filtering is meant to discard\<close>

text \<open>
  The two tests of the filtering loop as one predicate, and the stable filter that keeps
  exactly the lines that pass neither test. The loop is compared with it below.
\<close>

definition discarded :: "string \<Rightarrow> bool" where
  "discarded line = (line = ''\<newline>'' \<or> take 1 line = ''['')"

definition usable_lines :: "string list \<Rightarrow> string list" where
  "usable_lines ls = filter (\<lambda>l. \<not> discarded l) ls"

text \<open>
  The content of a line in the words of the specification: the line without its first two
  characters and without its trailing line terminator. It is compared below with the
  slice \<^verbatim>\<open>[2:-1]\<close> that the code takes.
\<close>

definition spec_content :: "string \<Rightarrow> string" where
  "spec_content line =
     drop 2 (if line \<noteq> [] \<and> last line = CHR 0x0A then butlast line else line)"

text \<open>Whether two lines that the filtering is meant to discard stand next to each other.\<close>

fun adjacent_discarded :: "string list \<Rightarrow> bool" where
  "adjacent_discarded (x # y # zs) = ((discarded x \<and> discarded y) \<or> adjacent_discarded (y # zs))"
| "adjacent_discarded zs = False"

section \<open>Facts about the loops\<close>

declare remove_loop.simps [simp del] range3.simps [simp del]

lemma readlines_from_nonempty: "[] \<notin> set (readlines_from cur inp)"
  by (induction inp arbitrary: cur) auto

lemma readlines_nonempty: "[] \<notin> set (readlines inp)"
  by (simp add: readlines_def readlines_from_nonempty)

lemma discarded_remove1:
  "discarded x \<Longrightarrow> usable_lines (remove1 x xs) = usable_lines xs"
  by (induction xs) (auto simp: usable_lines_def)

lemma discarded_iff:
  "line \<noteq> [] \<Longrightarrow> discarded line = (line = ''\<newline>'' \<or> hd line = CHR ''['')"
  by (cases line) (auto simp: discarded_def)

text \<open>
  On lines none of which is empty the filtering loop never raises; what it returns is
  made of lines of its input and holds every line that passes neither test, in order.
\<close>

lemma remove_loop_ok:
  "[] \<notin> set tb \<Longrightarrow>
   \<exists>r. remove_loop i tb = Inr r \<and> usable_lines r = usable_lines tb \<and> set r \<subseteq> set tb"
proof (induction i tb rule: remove_loop.induct)
  case (1 i tb)
  show ?case
  proof (cases "length tb \<le> i")
    case True
    then show ?thesis by (simp add: remove_loop.simps [of i tb])
  next
    case False
    then have mem: "tb ! i \<in> set tb" by simp
    with "1.prems" have ne: "tb ! i \<noteq> []" by metis
    show ?thesis
    proof (cases "discarded (tb ! i)")
      case True
      have step: "remove_loop i tb = remove_loop (Suc i) (remove1 (tb ! i) tb)"
        using False True ne by (subst remove_loop.simps) (auto simp: discarded_iff)
      have sub: "set (remove1 (tb ! i) tb) \<subseteq> set tb" by (rule set_remove1_subset)
      with "1.prems" have "[] \<notin> set (remove1 (tb ! i) tb)" by blast
      then obtain r where r: "remove_loop (Suc i) (remove1 (tb ! i) tb) = Inr r"
          "usable_lines r = usable_lines (remove1 (tb ! i) tb)"
          "set r \<subseteq> set (remove1 (tb ! i) tb)"
        using "1.IH"(1,2) False True ne discarded_iff by metis
      then show ?thesis using step sub True by (auto simp: discarded_remove1)
    next
      case nd: False
      have step: "remove_loop i tb = remove_loop (Suc i) tb"
        using False nd ne by (subst remove_loop.simps) (auto simp: discarded_iff)
      have "tb ! i \<noteq> ''\<newline>''" "hd (tb ! i) \<noteq> CHR ''[''"
        using nd ne by (auto simp: discarded_iff)
      then show ?thesis using "1.IH"(3) [OF False _ ne] "1.prems" step by auto
    qed
  qed
qed

lemma remove_lines_ok:
  "\<exists>r. remove_lines (readlines inp) = Inr r \<and> usable_lines r = usable_lines (readlines inp)
       \<and> [] \<notin> set r"
  using remove_loop_ok [OF readlines_nonempty, of 0 inp] readlines_nonempty [of inp]
  by (auto simp: remove_lines_def)

lemma length_usable_lines: "length (usable_lines ls) \<le> length ls"
  by (simp add: usable_lines_def)

lemma append_roots_ok:
  "(\<And>i. i \<in> set is \<Longrightarrow> i < length tb \<and> tb ! i \<noteq> []) \<Longrightarrow>
   append_roots tb is roots = (None, roots @ map (\<lambda>i. [hd (tb ! i)]) is)"
  by (induction "is" arbitrary: roots) auto

lemma append_roots_fail:
  "i \<in> set is \<Longrightarrow> \<not> (i < length tb \<and> tb ! i \<noteq> []) \<Longrightarrow>
   fst (append_roots tb is roots) = Some IndexError"
  by (induction "is" arbitrary: roots) auto

lemma append_roots_prefix:
  "\<exists>new. snd (append_roots tb is roots) = roots @ new"
proof (induction "is" arbitrary: roots)
  case Nil
  then show ?case by simp
next
  case (Cons i "is")
  show ?case
  proof (cases "i < length tb \<and> tb ! i \<noteq> []")
    case True
    from Cons.IH [of "roots @ [[hd (tb ! i)]]"] obtain new
      where "snd (append_roots tb is (roots @ [[hd (tb ! i)]])) = (roots @ [[hd (tb ! i)]]) @ new"
      by blast
    with True show ?thesis by simp
  next
    case False
    then show ?thesis by auto
  qed
qed

lemma range3_bound: "j \<in> set (range3 a n s) \<Longrightarrow> j < n"
proof (induction a n s rule: range3.induct)
  case (1 start stop step)
  then show ?case
    by (subst (asm) range3.simps) (auto split: if_splits)
qed

lemma range3_single: "i < n \<Longrightarrow> range3 i n n = [i]"
  by (simp add: range3.simps [of i n n] range3.simps [of "i + n" n n])

lemma removePipes_no_pipe: "CHR ''|'' \<notin> set (removePipes s)"
  by (simp add: removePipes_def)

lemma group_no_pipe:
  "(\<And>x. x \<in> set tb \<Longrightarrow> CHR ''|'' \<notin> set x) \<Longrightarrow> CHR ''|'' \<notin> set (group tb s i)"
  using range3_bound by (fastforce simp: group_def)

lemma length_interleave: "length (interleave tb n) = nat n"
  by (simp add: interleave_def)

lemma interleave_no_pipe:
  "i < length (interleave (map removePipes xs) n) \<Longrightarrow>
   CHR ''|'' \<notin> set (interleave (map removePipes xs) n ! i)"
  by (auto simp: interleave_def intro!: group_no_pipe simp: removePipes_no_pipe)


lemma read_success:
  assumes r: "remove_lines (readlines inp) = Inr r" and ne: "[] \<notin> set r"
    and len: "nat (strings t) \<le> length r"
  shows "read t inp =
    (Inr (interleave (map removePipes (map trim r)) (strings t)),
     t\<lparr>tab := interleave (map removePipes (map trim r)) (strings t),
       tab_roots := tab_roots t @ new_roots r (strings t)\<rparr>)"
proof -
  have "append_roots r [0..<nat (strings t)] (tab_roots t) =
        (None, tab_roots t @ new_roots r (strings t))"
    unfolding new_roots_def
  proof (rule append_roots_ok)
    fix i assume "i \<in> set [0..<nat (strings t)]"
    then have "i < length r" using len by simp
    then show "i < length r \<and> r ! i \<noteq> []" using ne nth_mem by metis
  qed
  then show ?thesis by (simp add: read_def read_lines_def r Let_def)
qed

lemma read_failure:
  assumes r: "remove_lines (readlines inp) = Inr r" and len: "length r < nat (strings t)"
  shows "fst (read t inp) = Inl IndexError"
proof -
  have "length r \<in> set [0..<nat (strings t)]" using len by simp
  then have "fst (append_roots r [0..<nat (strings t)] (tab_roots t)) = Some IndexError"
    by (rule append_roots_fail) simp
  then show ?thesis
    by (auto simp: read_def read_lines_def r split: prod.splits option.splits)
qed

lemma read_cases:
  obtains (ok) r where "remove_lines (readlines inp) = Inr r" "[] \<notin> set r"
      "usable_lines r = usable_lines (readlines inp)" "nat (strings t) \<le> length r"
      "read t inp =
        (Inr (interleave (map removePipes (map trim r)) (strings t)),
         t\<lparr>tab := interleave (map removePipes (map trim r)) (strings t),
           tab_roots := tab_roots t @ new_roots r (strings t)\<rparr>)"
  | (fail) r where "remove_lines (readlines inp) = Inr r"
      "usable_lines r = usable_lines (readlines inp)" "length r < nat (strings t)"
      "fst (read t inp) = Inl IndexError"
proof -
  obtain r where r: "remove_lines (readlines inp) = Inr r"
      "usable_lines r = usable_lines (readlines inp)" "[] \<notin> set r"
    using remove_lines_ok by blast
  show thesis
  proof (cases "nat (strings t) \<le> length r")
    case True
    then show thesis using ok r read_success [OF r(1) r(3) True] by blast
  next
    case False
    then have "length r < nat (strings t)" by simp
    then show thesis using fail r read_failure [OF r(1)] by blast
  qed
qed

lemma read_frame_fields:
  "symbols (snd (read t inp)) = symbols t \<and> notes_sharps (snd (read t inp)) = notes_sharps t \<and>
   notes_flat (snd (read t inp)) = notes_flat t \<and> divisions (snd (read t inp)) = divisions t \<and>
   timesignature (snd (read t inp)) = timesignature t \<and> strings (snd (read t inp)) = strings t"
  by (simp add: read_def read_lines_def Let_def split: sum.splits prod.splits option.splits)

lemma remove_loop_id:
  "(\<And>j. i \<le> j \<Longrightarrow> j < length tb \<Longrightarrow> tb ! j \<noteq> [] \<and> \<not> discarded (tb ! j)) \<Longrightarrow>
   remove_loop i tb = Inr tb"
proof (induction "length tb - i" arbitrary: i)
  case 0
  then show ?case by (simp add: remove_loop.simps [of i tb])
next
  case (Suc k)
  then have lt: "i < length tb" by simp
  with Suc.prems [of i] have ne: "tb ! i \<noteq> []" and nd: "\<not> discarded (tb ! i)" by simp_all
  have "remove_loop i tb = remove_loop (Suc i) tb"
    using lt ne nd by (subst remove_loop.simps) (auto simp: discarded_iff)
  moreover have "remove_loop (Suc i) tb = Inr tb"
  proof (rule Suc.hyps(1))
    show "k = length tb - Suc i" using Suc.hyps(2) by simp
  next
    fix j assume "Suc i \<le> j" "j < length tb"
    then show "tb ! j \<noteq> [] \<and> \<not> discarded (tb ! j)" using Suc.prems [of j] by simp
  qed
  ultimately show ?case by simp
qed

lemma group_single: "i < length tb \<Longrightarrow> group tb (length tb) i = tb ! i"
  by (simp add: group_def range3_single)

lemma interleave_single_block: "interleave tb (int (length tb)) = tb"
  by (rule nth_equalityI) (simp_all add: interleave_def group_single)

lemma print_loop_ok:
  "(\<And>i. i \<in> set is \<Longrightarrow> i < length roots) \<Longrightarrow>
   print_loop roots seqs is out = (None, out @ map (\<lambda>i. roots ! i @ ''|'' @ seqs ! i) is)"
  by (induction "is" arbitrary: out) auto

lemma print_lines_ok:
  "length seqs \<le> length roots \<Longrightarrow>
   print_lines roots seqs = (None, map (\<lambda>i. roots ! i @ ''|'' @ seqs ! i) [0..<length seqs])"
  unfolding print_lines_def by (subst print_loop_ok) auto

lemma after_reads_frame:
  "symbols (after_reads t inps) = symbols t \<and> notes_sharps (after_reads t inps) = notes_sharps t \<and>
   notes_flat (after_reads t inps) = notes_flat t \<and> divisions (after_reads t inps) = divisions t \<and>
   timesignature (after_reads t inps) = timesignature t \<and> strings (after_reads t inps) = strings t"
proof (induction inps arbitrary: t)
  case Nil
  then show ?case by (simp add: after_reads_def)
next
  case (Cons x xs)
  have "after_reads t (x # xs) = after_reads (snd (read t x)) xs" by (simp add: after_reads_def)
  then show ?case using Cons.IH [of "snd (read t x)"] read_frame_fields [of t x] by simp
qed

lemma read_ok_state:
  assumes "read t inp = (Inr res, t')"
  shows "strings t' = strings t \<and> tab t' = res \<and> length res = nat (strings t) \<and>
         (\<exists>new. tab_roots t' = tab_roots t @ new \<and> length new = nat (strings t))"
proof (cases inp t rule: read_cases)
  case (ok r)
  with assms show ?thesis by (auto simp: length_interleave new_roots_def)
next
  case (fail r)
  with assms show ?thesis by simp
qed

lemma read_all_state:
  "read_all t inps = Inr (rs, tn) \<Longrightarrow>
   length rs = length inps \<and> strings tn = strings t \<and>
   (\<exists>new. tab_roots tn = tab_roots t @ new \<and> length new = length inps * nat (strings t)) \<and>
   (inps \<noteq> [] \<longrightarrow> tab tn = last rs \<and> length (last rs) = nat (strings t))"
proof (induction inps arbitrary: t rs)
  case Nil
  then show ?case by simp
next
  case (Cons x xs)
  from Cons.prems obtain res t1 rs' where
    rd: "read t x = (Inr res, t1)" and rest: "read_all t1 xs = Inr (rs', tn)" and rs: "rs = res # rs'"
    by (auto split: prod.splits sum.splits)
  from read_ok_state [OF rd] obtain new1 where
    t1: "strings t1 = strings t" "tab t1 = res" "length res = nat (strings t)"
        "tab_roots t1 = tab_roots t @ new1" "length new1 = nat (strings t)"
    by blast
  from Cons.IH [OF rest] obtain new2 where
    tn: "length rs' = length xs" "strings tn = strings t1"
        "tab_roots tn = tab_roots t1 @ new2" "length new2 = length xs * nat (strings t1)"
        "xs \<noteq> [] \<longrightarrow> tab tn = last rs' \<and> length (last rs') = nat (strings t1)"
    by blast
  have "tab_roots tn = tab_roots t @ (new1 @ new2)" using t1 tn by simp
  moreover have "length (new1 @ new2) = length (x # xs) * nat (strings t)" using t1 tn by simp
  moreover have "tab tn = last rs \<and> length (last rs) = nat (strings t)"
  proof (cases xs)
    case Nil
    with rest have "rs' = []" "tn = t1" by simp_all
    then show ?thesis using rs t1(2,3) by simp
  next
    case (Cons y ys)
    with tn(1) have "rs' \<noteq> []" by auto
    moreover have "tab tn = last rs' \<and> length (last rs') = nat (strings t1)"
      using tn(5) Cons by simp
    ultimately show ?thesis using rs t1(1) by simp
  qed
  moreover have "length rs = length (x # xs)" using rs tn by simp
  moreover have "strings tn = strings t" using tn t1 by simp
  ultimately show ?case by blast
qed

lemma remove1_after_kept:
  "x \<notin> set pre \<Longrightarrow> remove1 x (pre @ x # rest) = pre @ rest"
  by (induction pre) auto

lemma remove_loop_exact:
  "[] \<notin> set (pre @ rest) \<Longrightarrow> (\<And>x. x \<in> set pre \<Longrightarrow> \<not> discarded x) \<Longrightarrow>
   \<not> adjacent_discarded rest \<Longrightarrow>
   remove_loop (length pre) (pre @ rest) = Inr (pre @ usable_lines rest)"
proof (induction rest arbitrary: pre rule: length_induct)
  case (1 rest)
  show ?case
  proof (cases rest)
    case Nil
    then show ?thesis by (simp add: remove_loop.simps [of "length pre" pre] usable_lines_def)
  next
    case (Cons x rest')
    have ne: "x \<noteq> []" using "1.prems"(1) Cons by auto
    have at: "(pre @ rest) ! length pre = x" using Cons by simp
    have lt: "\<not> length (pre @ rest) \<le> length pre" using Cons by simp
    show ?thesis
    proof (cases "discarded x")
      case False
      have step: "remove_loop (length pre) (pre @ rest) = remove_loop (Suc (length pre)) (pre @ rest)"
        using lt at ne False by (subst remove_loop.simps) (auto simp: discarded_iff)
      have "remove_loop (length (pre @ [x])) ((pre @ [x]) @ rest') = Inr ((pre @ [x]) @ usable_lines rest')"
      proof (rule "1.IH" [rule_format])
        show "length rest' < length rest" using Cons by simp
        show "[] \<notin> set ((pre @ [x]) @ rest')" using "1.prems"(1) Cons by simp
        show "\<not> adjacent_discarded rest'" using "1.prems"(3) Cons by (cases rest') auto
        fix y assume "y \<in> set (pre @ [x])"
        then show "\<not> discarded y" using "1.prems"(2) False by auto
      qed
      then show ?thesis using step Cons False by (simp add: usable_lines_def)
    next
      case True
      have notin: "x \<notin> set pre" using "1.prems"(2) True by blast
      have step: "remove_loop (length pre) (pre @ rest) = remove_loop (Suc (length pre)) (pre @ rest')"
        using lt at ne True Cons remove1_after_kept [OF notin, of rest']
        by (subst remove_loop.simps) (auto simp: discarded_iff)
      show ?thesis
      proof (cases rest')
        case Nil
        then show ?thesis using step Cons True
          by (simp add: remove_loop.simps [of "Suc (length pre)" pre] usable_lines_def)
      next
        case (Cons y rest'')
        have ynd: "\<not> discarded y" using "1.prems"(3) \<open>rest = x # rest'\<close> Cons True by simp
        have "remove_loop (length (pre @ [y])) ((pre @ [y]) @ rest'') = Inr ((pre @ [y]) @ usable_lines rest'')"
        proof (rule "1.IH" [rule_format])
          show "length rest'' < length rest" using Cons \<open>rest = x # rest'\<close> by simp
          show "[] \<notin> set ((pre @ [y]) @ rest'')" using "1.prems"(1) Cons \<open>rest = x # rest'\<close> by simp
          show "\<not> adjacent_discarded rest''"
            using "1.prems"(3) Cons \<open>rest = x # rest'\<close> by (cases rest'') auto
          fix z assume "z \<in> set (pre @ [y])"
          then show "\<not> discarded z" using "1.prems"(2) ynd by auto
        qed
        then show ?thesis using step Cons \<open>rest = x # rest'\<close> True ynd
          by (simp add: usable_lines_def)
      qed
    qed
  qed
qed

lemma remove_lines_exact:
  "[] \<notin> set ls \<Longrightarrow> \<not> adjacent_discarded ls \<Longrightarrow> remove_lines ls = Inr (usable_lines ls)"
  using remove_loop_exact [of "[]" ls] by (simp add: remove_lines_def)

lemma mod_differs_within_step:
  fixes a j s :: nat
  assumes "Suc a \<le> j" "j < a + s"
  shows "j mod s \<noteq> a mod s"
proof
  assume "j mod s = a mod s"
  moreover have "a \<le> j" using assms(1) by simp
  ultimately have "s dvd (j - a)" by (simp add: mod_eq_dvd_iff_nat)
  moreover have "0 < j - a" "j - a < s" using assms by simp_all
  ultimately show False using dvd_imp_le by fastforce
qed

lemma range3_mod:
  "0 < s \<Longrightarrow> range3 a n s = filter (\<lambda>j. j mod s = a mod s) [a..<n]"
proof (induction a n s rule: range3.induct)
  case (1 start stop step)
  show ?case
  proof (cases "stop \<le> start")
    case True
    then show ?thesis by (simp add: range3.simps [of start stop step])
  next
    case False
    then have lt: "start < stop" by simp
    have IH: "range3 (start + step) stop step =
        filter (\<lambda>j. j mod step = start mod step) [start + step..<stop]"
      using "1.IH" "1.prems" False by simp
    have mid: "filter (\<lambda>j. j mod step = start mod step) [Suc start..<stop] =
        filter (\<lambda>j. j mod step = start mod step) [start + step..<stop]"
    proof (cases "start + step \<le> stop")
      case True
      obtain k where k: "stop = (start + step) + k" using True le_Suc_ex by blast
      have "Suc start \<le> start + step" using "1.prems" by simp
      then have "[Suc start..<(start + step) + k] = [Suc start..<start + step] @ [start + step..<(start + step) + k]"
        by (rule upt_add_eq_append)
      then have "[Suc start..<stop] = [Suc start..<start + step] @ [start + step..<stop]"
        using k by simp
      moreover have "filter (\<lambda>j. j mod step = start mod step) [Suc start..<start + step] = []"
        by (auto simp: filter_empty_conv dest: mod_differs_within_step [of start _ step])
      ultimately show ?thesis by simp
    next
      case False
      then have "filter (\<lambda>j. j mod step = start mod step) [start + step..<stop] = []" by simp
      moreover have "filter (\<lambda>j. j mod step = start mod step) [Suc start..<stop] = []"
      proof -
        have "j mod step \<noteq> start mod step" if "Suc start \<le> j" "j < stop" for j
          using that False by (intro mod_differs_within_step) simp_all
        then show ?thesis by (auto simp: filter_empty_conv)
      qed
      ultimately show ?thesis by (simp only:)
    qed
    have "range3 start stop step = start # range3 (start + step) stop step"
      using lt "1.prems" by (subst range3.simps) simp
    also have "\<dots> = start # filter (\<lambda>j. j mod step = start mod step) [Suc start..<stop]"
      using IH mid by simp
    also have "\<dots> = filter (\<lambda>j. j mod step = start mod step) [start..<stop]"
      using lt by (simp add: upt_conv_Cons)
    finally show ?thesis .
  qed
qed

lemma trim_terminated: "trim (body @ ''\<newline>'') = drop 2 body"
  by (simp add: trim_def)

lemma group_mod:
  assumes "i < s"
  shows "group tb s i = concat (map (\<lambda>j. tb ! j) (filter (\<lambda>j. j mod s = i) [0..<length tb]))"
proof -
  have s: "0 < s" and im: "i mod s = i" using assms by simp_all
  have low: "filter (\<lambda>j. j mod s = i) [0..<min i (length tb)] = []"
    using assms by (auto simp: filter_empty_conv)
  have "[0..<length tb] = [0..<min i (length tb)] @ [min i (length tb)..<length tb]"
    using upt_add_eq_append [of 0 "min i (length tb)" "length tb - min i (length tb)"] by simp
  then have "filter (\<lambda>j. j mod s = i) [0..<length tb] =
      filter (\<lambda>j. j mod s = i) [min i (length tb)..<length tb]"
    using low by (metis append_Nil filter_append)
  also have "\<dots> = filter (\<lambda>j. j mod s = i) [i..<length tb]"
    by (cases "i \<le> length tb") (simp_all add: min_def)
  finally show ?thesis using range3_mod [OF s, of i "length tb"] im by (simp add: group_def)
qed

lemma interleave_mod:
  "i < nat n \<Longrightarrow>
   interleave tb n ! i = concat (map (\<lambda>j. tb ! j) (filter (\<lambda>j. j mod nat n = i) [0..<length tb]))"
  by (simp add: interleave_def group_mod)

lemma read_raises_iff:
  assumes "\<not> adjacent_discarded (readlines inp)"
  shows "(fst (read t inp) = Inl IndexError) =
         (length (usable_lines (readlines inp)) < nat (strings t))"
proof -
  have r: "remove_lines (readlines inp) = Inr (usable_lines (readlines inp))"
    using remove_lines_exact [OF readlines_nonempty assms] .
  show ?thesis
  proof (cases inp t rule: read_cases)
    case (ok r')
    with r show ?thesis by simp
  next
    case (fail r')
    with r show ?thesis by simp
  qed
qed

lemma read_interleaves_usable:
  assumes "\<not> adjacent_discarded (readlines inp)"
    and "nat (strings t) \<le> length (usable_lines (readlines inp))"
    and "i < nat (strings t)"
  shows "\<exists>res t'. read t inp = (Inr res, t') \<and>
     res ! i = concat (map (\<lambda>j. removePipes (trim (usable_lines (readlines inp) ! j)))
                 (filter (\<lambda>j. j mod nat (strings t) = i)
                    [0..<length (usable_lines (readlines inp))]))"
proof -
  let ?u = "usable_lines (readlines inp)"
  have r: "remove_lines (readlines inp) = Inr ?u"
    using remove_lines_exact [OF readlines_nonempty assms(1)] .
  have ne: "[] \<notin> set ?u" using readlines_nonempty [of inp] by (simp add: usable_lines_def)
  have "interleave (map removePipes (map trim ?u)) (strings t) ! i =
      concat (map (\<lambda>j. map removePipes (map trim ?u) ! j)
        (filter (\<lambda>j. j mod nat (strings t) = i) [0..<length (map removePipes (map trim ?u))]))"
    using assms(3) by (rule interleave_mod)
  also have "\<dots> = concat (map (\<lambda>j. removePipes (trim (?u ! j)))
        (filter (\<lambda>j. j mod nat (strings t) = i) [0..<length ?u]))"
    by (rule arg_cong [where f = concat]) (rule map_cong, simp_all)
  finally show ?thesis using read_success [OF r ne assms(2)] by simp
qed

lemma read_single_block_sliced:
  assumes "int (length (readlines inp)) = strings t"
    and "\<forall>l \<in> set (readlines inp). \<not> discarded l"
  shows "fst (read t inp) = Inr (map (\<lambda>l. removePipes (trim l)) (readlines inp))"
proof -
  let ?ls = "readlines inp"
  have "remove_loop 0 ?ls = Inr ?ls"
  proof (rule remove_loop_id)
    fix j assume "j < length ?ls"
    then have "?ls ! j \<in> set ?ls" by simp
    then show "?ls ! j \<noteq> [] \<and> \<not> discarded (?ls ! j)"
      using assms(2) readlines_nonempty [of inp] by metis
  qed
  then have r: "remove_lines ?ls = Inr ?ls" by (simp add: remove_lines_def)
  have len: "nat (strings t) \<le> length ?ls" using assms(1) by simp
  have "strings t = int (length (map removePipes (map trim ?ls)))" using assms(1) by simp
  then have "interleave (map removePipes (map trim ?ls)) (strings t) = map removePipes (map trim ?ls)"
    using interleave_single_block by metis
  then show ?thesis
    using read_success [OF r readlines_nonempty len] by (simp add: comp_def)
qed

lemma trim_spec_content:
  "line \<noteq> [] \<Longrightarrow> last line = CHR 0x0A \<Longrightarrow> trim line = spec_content line"
  by (simp add: trim_def spec_content_def butlast_conv_take)

lemma read_single_block_terminated:
  assumes "int (length (readlines inp)) = strings t"
    and "\<forall>l \<in> set (readlines inp). \<not> discarded l"
    and "\<forall>l \<in> set (readlines inp). last l = CHR 0x0A"
  shows "fst (read t inp) = Inr (map (\<lambda>l. removePipes (spec_content l)) (readlines inp))"
proof -
  have "map (\<lambda>l. removePipes (trim l)) (readlines inp) =
        map (\<lambda>l. removePipes (spec_content l)) (readlines inp)"
  proof (rule map_cong [OF refl])
    fix l assume l: "l \<in> set (readlines inp)"
    then have "l \<noteq> []" using readlines_nonempty [of inp] by metis
    then show "removePipes (trim l) = removePipes (spec_content l)"
      using assms(3) l by (simp add: trim_spec_content)
  qed
  then show ?thesis using read_single_block_sliced [OF assms(1,2)] by simp
qed

section \<open>Properties\<close>

text \<open>
  C1. Every string's sequence is the concatenation, in ascending order, of the trimmed,
  pipe-free contents of the lines at the positions congruent to the string's index in the
  list of the lines that are neither blank nor headers. The lemma
  \<open>read_interleaves_usable\<close> shows this for every input in which no two discarded lines
  are adjacent. On the text below, which starts with two blank lines, the filtering loop
  leaves one of them in the list (see C4): the lines that are neither blank nor headers are
  \<open>E|0\<close> and \<open>B|1\<close>, of contents \<open>0\<close> and \<open>1\<close>, but \<^verbatim>\<open>read\<close> with two strings
  returns \<open>1\<close> for string 0 and \<open>0\<close> for string 1, and takes the blank line's terminator and
  \<open>E\<close> as the roots.
\<close>

theorem read_interleaves_leftover_blank_line:
  "usable_lines (readlines ''\<newline>\<newline>E|0\<newline>B|1\<newline>'') = [''E|0\<newline>'', ''B|1\<newline>''] \<and>
   remove_lines (readlines ''\<newline>\<newline>E|0\<newline>B|1\<newline>'') = Inr [''\<newline>'', ''E|0\<newline>'', ''B|1\<newline>''] \<and>
   fst (read (Tab_init 16 ''4/3'' 2) ''\<newline>\<newline>E|0\<newline>B|1\<newline>'') = Inr [''1'', ''0''] \<and>
   tab_roots (snd (read (Tab_init 16 ''4/3'' 2) ''\<newline>\<newline>E|0\<newline>B|1\<newline>'')) = [''\<newline>'', ''E'']"
  by code_simp

text \<open>
  C2. With fewer lines that are neither blank nor headers than there are strings,
  \<^verbatim>\<open>read\<close> raises \<open>IndexError\<close> and returns nothing. The lemma \<open>read_raises_iff\<close>
  shows this, and that \<^verbatim>\<open>read\<close> raises in no other case, for every input in which no
  two discarded lines are adjacent. The text below is two blank lines: it has no usable
  line, yet \<^verbatim>\<open>read\<close> with one string returns a list, of one empty sequence, because
  the filtering loop leaves the second blank line in the list (see C4).
\<close>

theorem read_returns_on_blank_lines:
  "usable_lines (readlines ''\<newline>\<newline>'') = [] \<and>
   remove_lines (readlines ''\<newline>\<newline>'') = Inr [''\<newline>''] \<and>
   fst (read (Tab_init 16 ''4/3'' 1) ''\<newline>\<newline>'') = Inr ['''']"
  by code_simp

text \<open>
  C3. When the input has at least as many lines that are neither blank nor headers as the
  object has strings (a count, so not negative), \<^verbatim>\<open>read\<close> on a fresh object returns:
  the roots it leaves in the object and the sequences it returns are as many as the
  strings, and no sequence contains a pipe.
\<close>

theorem read_fresh_shape:
  assumes "0 \<le> s" and "s \<le> int (length (usable_lines (readlines inp)))"
  shows "\<exists>res t'. read (Tab_init d ts s) inp = (Inr res, t') \<and>
           int (length (tab_roots t')) = s \<and> int (length res) = s \<and> tab t' = res \<and>
           (\<forall>i<length res. CHR ''|'' \<notin> set (res ! i))"
proof (cases inp "Tab_init d ts s" rule: read_cases)
  case (ok r)
  have fresh: "tab_roots (Tab_init d ts s) = []" "strings (Tab_init d ts s) = s"
    by (simp_all add: Tab_init_def)
  let ?res = "interleave (map removePipes (map trim r)) s"
  have "int (length ?res) = s" using assms(1) by (simp add: length_interleave)
  moreover have "int (length (new_roots r s)) = s" using assms(1) by (simp add: new_roots_def)
  moreover have "\<forall>i<length ?res. CHR ''|'' \<notin> set (?res ! i)"
    using interleave_no_pipe by blast
  ultimately show ?thesis using ok(5) fresh by simp
next
  case (fail r)
  have "length (usable_lines r) \<le> length r" by (rule length_usable_lines)
  with fail(2,3) assms(2) have False by (simp add: Tab_init_def)
  then show ?thesis ..
qed

theorem read_fresh_shape_witness:
  "(0::int) \<le> 2 \<and>
   2 \<le> int (length (usable_lines (readlines
          ''[Intro]\<newline>E|0--2--|\<newline>B|--3----|\<newline>\<newline>E|1------|\<newline>B|---4---|\<newline>''))) \<and>
   (\<exists>res t'. read (Tab_init 16 ''4/3'' 2)
          ''[Intro]\<newline>E|0--2--|\<newline>B|--3----|\<newline>\<newline>E|1------|\<newline>B|---4---|\<newline>'' = (Inr res, t') \<and>
      int (length (tab_roots t')) = 2 \<and> int (length res) = 2 \<and> tab t' = res \<and>
      (\<forall>i<length res. CHR ''|'' \<notin> set (res ! i)))"
proof -
  have h1: "(0::int) \<le> 2" by simp
  have h2: "2 \<le> int (length (usable_lines (readlines
          ''[Intro]\<newline>E|0--2--|\<newline>B|--3----|\<newline>\<newline>E|1------|\<newline>B|---4---|\<newline>'')))"
    by code_simp
  from read_fresh_shape [OF h1 h2, of 16 "''4/3''"] h1 h2 show ?thesis by blast
qed

text \<open>
  C4. The filtering discards every blank line and every line that starts with \<open>[\<close>, and
  keeps the others in order, also when blank lines or header lines are consecutive. The
  lemma \<open>remove_lines_exact\<close> shows it for every input in which no two discarded lines are
  adjacent, and \<open>remove_loop_ok\<close> that the other lines are always kept, in order. The loop
  removes from the list it walks, so it never looks at the line that follows a removed
  one: of two blank lines it keeps the second, and of two headers the second.
\<close>

theorem remove_lines_leaves_adjacent_lines:
  "remove_lines (readlines ''\<newline>\<newline>E|0\<newline>'') = Inr [''\<newline>'', ''E|0\<newline>''] \<and>
   usable_lines (readlines ''\<newline>\<newline>E|0\<newline>'') = [''E|0\<newline>''] \<and>
   remove_lines (readlines ''[Intro]\<newline>[Verse]\<newline>E|0\<newline>'') = Inr [''[Verse]\<newline>'', ''E|0\<newline>''] \<and>
   usable_lines (readlines ''[Intro]\<newline>[Verse]\<newline>E|0\<newline>'') = [''E|0\<newline>'']"
  by code_simp

text \<open>
  C5. The trimming removes the first two characters of a line and its line terminator,
  and never raises. The lemma \<open>trim_terminated\<close> shows it for every line that ends with a
  terminator. The slice \<^verbatim>\<open>[2:-1]\<close> removes the last character whatever it is: the last
  line of a file that does not end with a terminator loses its last character, here the
  fret \<open>2\<close>.
\<close>

theorem trim_drops_last_character:
  "readlines ''E|0-2'' = [''E|0-2''] \<and> trim ''E|0-2'' = ''0-'' \<and>
   fst (read (Tab_init 16 ''4/3'' 1) ''E|0-2'') = Inr [''0-'']"
  by code_simp

text \<open>
  C6. When the input is exactly as many lines as the object has strings, none of them
  blank or a header, \<^verbatim>\<open>read\<close> returns, for every string, the content of the line at
  the string's index: the line without its first two characters, its line terminator and
  its pipes. The lemma \<open>read_single_block_terminated\<close> shows this for every such input
  whose lines all end with a terminator. The text below is two lines, neither blank nor a
  header, and the object has two strings, but the second line has no terminator: its
  content is \<open>--3---5\<close>, and \<^verbatim>\<open>read\<close> returns \<open>--3---\<close>, because the slice
  \<^verbatim>\<open>[2:-1]\<close> removes the last character whatever it is (see C5).
\<close>

theorem read_single_block_drops_last_fret:
  "int (length (readlines ''E|0--2--|\<newline>B|--3---5'')) = strings (Tab_init 16 ''4/3'' 2) \<and>
   list_all (\<lambda>l. \<not> discarded l) (readlines ''E|0--2--|\<newline>B|--3---5'') \<and>
   map (\<lambda>l. removePipes (spec_content l)) (readlines ''E|0--2--|\<newline>B|--3---5'') =
     [''0--2--'', ''--3---5''] \<and>
   fst (read (Tab_init 16 ''4/3'' 2) ''E|0--2--|\<newline>B|--3---5'') = Inr [''0--2--'', ''--3---'']"
  by code_simp

text \<open>
  C7. For roots and sequences of equal length the display step writes, for every index,
  the root, a pipe and the sequence; and after a call of \<^verbatim>\<open>read\<close> that returned,
  \<^verbatim>\<open>print\<close> writes one line for each returned sequence, line \<open>i\<close> being root \<open>i\<close> of
  the object, a pipe and sequence \<open>i\<close>. On a fresh object the roots of the object are
  those of that call; C10 is about the roots after several calls.
\<close>

theorem print_lines_format:
  "(length roots = length seqs \<longrightarrow>
      (\<exists>out. print_lines roots seqs = (None, out) \<and> length out = length seqs \<and>
         (\<forall>i<length seqs. out ! i = roots ! i @ ''|'' @ seqs ! i))) \<and>
   (read t inp = (Inr res, t') \<longrightarrow>
      (\<exists>out. print t' = (None, out) \<and> length out = length res \<and>
         (\<forall>i<length res. out ! i = tab_roots t' ! i @ ''|'' @ res ! i)))"
proof (intro conjI impI)
  assume "length roots = length seqs"
  then show "\<exists>out. print_lines roots seqs = (None, out) \<and> length out = length seqs \<and>
         (\<forall>i<length seqs. out ! i = roots ! i @ ''|'' @ seqs ! i)"
    by (simp add: print_lines_ok)
next
  assume rd: "read t inp = (Inr res, t')"
  show "\<exists>out. print t' = (None, out) \<and> length out = length res \<and>
         (\<forall>i<length res. out ! i = tab_roots t' ! i @ ''|'' @ res ! i)"
  proof (cases inp t rule: read_cases)
    case (ok r)
    with rd have "tab t' = res" "length res = nat (strings t)"
        "length (tab_roots t') = length (tab_roots t) + nat (strings t)"
      by (auto simp: length_interleave new_roots_def)
    then show ?thesis by (simp add: print_def print_lines_ok)
  next
    case (fail r)
    with rd show ?thesis by simp
  qed
qed

theorem print_lines_format_witness:
  "length [''E'', ''B''] = length [''0--2--'', ''--3----''] \<and>
   fst (read (Tab_init 16 ''4/3'' 2) ''E|0--2--|\<newline>B|--3----|\<newline>'') = Inr [''0--2--'', ''--3----''] \<and>
   (\<exists>out. print_lines [''E'', ''B''] [''0--2--'', ''--3----''] = (None, out) \<and>
      length out = length [''0--2--'', ''--3----''] \<and>
      (\<forall>i<length [''0--2--'', ''--3----''].
         out ! i = [''E'', ''B''] ! i @ ''|'' @ [''0--2--'', ''--3----''] ! i)) \<and>
   (\<exists>out. print (snd (read (Tab_init 16 ''4/3'' 2) ''E|0--2--|\<newline>B|--3----|\<newline>'')) = (None, out) \<and>
      length out = length [''0--2--'', ''--3----''] \<and>
      (\<forall>i<length [''0--2--'', ''--3----''].
         out ! i = tab_roots (snd (read (Tab_init 16 ''4/3'' 2) ''E|0--2--|\<newline>B|--3----|\<newline>'')) ! i
                   @ ''|'' @ [''0--2--'', ''--3----''] ! i))"
proof -
  have h1: "length [''E'', ''B''] = length [''0--2--'', ''--3----'']" by simp
  have h2: "fst (read (Tab_init 16 ''4/3'' 2) ''E|0--2--|\<newline>B|--3----|\<newline>'') =
      Inr [''0--2--'', ''--3----'']"
    by code_simp
  then have h3: "read (Tab_init 16 ''4/3'' 2) ''E|0--2--|\<newline>B|--3----|\<newline>'' =
      (Inr [''0--2--'', ''--3----''], snd (read (Tab_init 16 ''4/3'' 2) ''E|0--2--|\<newline>B|--3----|\<newline>''))"
    by (simp add: prod_eq_iff)
  from print_lines_format [of "[''E'', ''B'']" "[''0--2--'', ''--3----'']"
      "Tab_init 16 ''4/3'' 2" "''E|0--2--|\<newline>B|--3----|\<newline>''" "[''0--2--'', ''--3----'']"
      "snd (read (Tab_init 16 ''4/3'' 2) ''E|0--2--|\<newline>B|--3----|\<newline>'')"] h1 h2 h3
  show ?thesis by blast
qed

text \<open>
  C8. Removing the pipes is idempotent: removing every \<open>|\<close> from a string from which
  every \<open>|\<close> has been removed changes nothing.
\<close>

theorem removePipes_idempotent: "removePipes (removePipes s) = removePipes s"
  by (simp add: removePipes_def)

text \<open>
  C9. \<^verbatim>\<open>read\<close> never changes the notation tables nor the settings: after any calls of
  \<^verbatim>\<open>read\<close> on an object, whether they returned or raised, \<open>symbols\<close>,
  \<open>notes_sharps\<close>, \<open>notes_flat\<close>, \<open>divisions\<close>, \<open>timesignature\<close> and \<open>strings\<close> have the
  values the constructor gave them.
\<close>

theorem read_keeps_tables:
  "symbols (after_reads (Tab_init d ts s) inps) = [''/'', [CHR 0x5C], ''~'', ''h'', ''p'', ''b''] \<and>
   notes_sharps (after_reads (Tab_init d ts s) inps) =
     [''C'', ''C#'', ''D'', ''D#'', ''E'', ''F'', ''F#'', ''G'', ''G#'', ''A'', ''A#'', ''B''] \<and>
   notes_flat (after_reads (Tab_init d ts s) inps) =
     [''C'', ''Db'', ''D'', ''Eb'', ''E'', ''F'', ''Gb'', ''G'', ''Ab'', ''A'', ''Bb'', ''B''] \<and>
   divisions (after_reads (Tab_init d ts s) inps) = d \<and>
   timesignature (after_reads (Tab_init d ts s) inps) = ts \<and>
   strings (after_reads (Tab_init d ts s) inps) = s"
  using after_reads_frame [of "Tab_init d ts s" inps] by (simp add: Tab_init_def)

text \<open>
  C10. A call of \<^verbatim>\<open>read\<close> that returns appends as many roots as the object has
  strings to the roots already in the object, and replaces the sequences of the object by
  the ones it returns. So after \<open>n\<close> calls on a fresh object, all of which returned, the
  object holds \<open>n\<close> times as many roots as it has strings and as many sequences as it has
  strings, the first roots are those of the first call, and \<^verbatim>\<open>print\<close> writes root
  \<open>i\<close> of the first call before sequence \<open>i\<close> of the last call.
\<close>

theorem read_appends_roots:
  "(0 \<le> strings t \<and> read t inp = (Inr res, t') \<longrightarrow>
      tab t' = res \<and> int (length res) = strings t \<and>
      (\<exists>new. tab_roots t' = tab_roots t @ new \<and> int (length new) = strings t)) \<and>
   (0 \<le> s \<and> inps \<noteq> [] \<and> read_all (Tab_init d ts s) inps = Inr (rs, tn) \<longrightarrow>
      int (length (tab_roots tn)) = int (length inps) * s \<and>
      tab tn = last rs \<and> int (length (tab tn)) = s \<and>
      take (nat s) (tab_roots tn) = tab_roots (snd (read (Tab_init d ts s) (hd inps))) \<and>
      (\<exists>out. print tn = (None, out) \<and> int (length out) = s \<and>
         (\<forall>i<nat s. out ! i =
            tab_roots (snd (read (Tab_init d ts s) (hd inps))) ! i @ ''|'' @ last rs ! i)))"
proof (rule conjI; rule impI)
  assume a: "0 \<le> strings t \<and> read t inp = (Inr res, t')"
  from read_ok_state [of t inp res t'] a
  show "tab t' = res \<and> int (length res) = strings t \<and>
      (\<exists>new. tab_roots t' = tab_roots t @ new \<and> int (length new) = strings t)"
    by auto
next
  assume a: "0 \<le> s \<and> inps \<noteq> [] \<and> read_all (Tab_init d ts s) inps = Inr (rs, tn)"
  let ?t0 = "Tab_init d ts s"
  have t0: "strings ?t0 = s" "tab_roots ?t0 = []" by (simp_all add: Tab_init_def)
  from a obtain x xs where inps: "inps = x # xs" by (cases inps) auto
  from a inps obtain res t1 rs' where
    rd: "read ?t0 x = (Inr res, t1)" and rest: "read_all t1 xs = Inr (rs', tn)"
    by (auto split: prod.splits sum.splits)
  from read_ok_state [OF rd] t0 have
    t1: "strings t1 = s" "length (tab_roots t1) = nat s" by auto
  from read_all_state [OF rest] obtain new2 where
    new2: "tab_roots tn = tab_roots t1 @ new2" by blast
  from a read_all_state [of ?t0 inps rs tn] t0 obtain new where
    all: "tab_roots tn = new" "length new = length inps * nat s"
      "tab tn = last rs" "length (last rs) = nat s"
    by auto
  have len: "int (length (tab_roots tn)) = int (length inps) * s" using all a by simp
  have pre: "take (nat s) (tab_roots tn) = tab_roots t1" using new2 t1 by simp
  have first: "snd (read ?t0 (hd inps)) = t1" using rd inps by simp
  have "nat s \<le> length (tab_roots tn)" using new2 t1 by simp
  then have pr: "print tn = (None, map (\<lambda>i. tab_roots tn ! i @ ''|'' @ last rs ! i) [0..<nat s])"
    using all by (simp add: print_def print_lines_ok)
  have nth: "\<forall>i<nat s. tab_roots tn ! i = tab_roots t1 ! i"
    using new2 t1 by (simp add: nth_append)
  show "int (length (tab_roots tn)) = int (length inps) * s \<and>
      tab tn = last rs \<and> int (length (tab tn)) = s \<and>
      take (nat s) (tab_roots tn) = tab_roots (snd (read ?t0 (hd inps))) \<and>
      (\<exists>out. print tn = (None, out) \<and> int (length out) = s \<and>
         (\<forall>i<nat s. out ! i =
            tab_roots (snd (read ?t0 (hd inps))) ! i @ ''|'' @ last rs ! i))"
    using len all pre first pr nth a by simp
qed

theorem read_appends_roots_witness:
  "read_all (Tab_init 16 ''4/3'' 2) [''E|0-|\<newline>B|-1|\<newline>'', ''D|2\<newline>G|3\<newline>''] =
     Inr ([[''0-'', ''-1''], [''2'', ''3'']],
          after_reads (Tab_init 16 ''4/3'' 2) [''E|0-|\<newline>B|-1|\<newline>'', ''D|2\<newline>G|3\<newline>'']) \<and>
   tab_roots (after_reads (Tab_init 16 ''4/3'' 2) [''E|0-|\<newline>B|-1|\<newline>'', ''D|2\<newline>G|3\<newline>'']) =
     [''E'', ''B'', ''D'', ''G''] \<and>
   tab (after_reads (Tab_init 16 ''4/3'' 2) [''E|0-|\<newline>B|-1|\<newline>'', ''D|2\<newline>G|3\<newline>'']) =
     [''2'', ''3''] \<and>
   print (after_reads (Tab_init 16 ''4/3'' 2) [''E|0-|\<newline>B|-1|\<newline>'', ''D|2\<newline>G|3\<newline>'']) =
     (None, [''E|2'', ''B|3'']) \<and>
   int (length (tab_roots
     (after_reads (Tab_init 16 ''4/3'' 2) [''E|0-|\<newline>B|-1|\<newline>'', ''D|2\<newline>G|3\<newline>'']))) =
     int (length [''E|0-|\<newline>B|-1|\<newline>'', ''D|2\<newline>G|3\<newline>'']) * 2 \<and>
   fst (read (Tab_init 16 ''4/3'' 2) ''E|0-|\<newline>B|-1|\<newline>'') = Inr [''0-'', ''-1''] \<and>
   tab (snd (read (Tab_init 16 ''4/3'' 2) ''E|0-|\<newline>B|-1|\<newline>'')) = [''0-'', ''-1'']"
proof -
  let ?t = "Tab_init 16 ''4/3'' 2"
  let ?inps = "[''E|0-|\<newline>B|-1|\<newline>'', ''D|2\<newline>G|3\<newline>'']"
  have h1: "read_all ?t ?inps = Inr ([[''0-'', ''-1''], [''2'', ''3'']], after_reads ?t ?inps)"
    by code_simp
  have h2: "tab_roots (after_reads ?t ?inps) = [''E'', ''B'', ''D'', ''G'']" by code_simp
  have h3: "tab (after_reads ?t ?inps) = [''2'', ''3'']" by code_simp
  have h4: "print (after_reads ?t ?inps) = (None, [''E|2'', ''B|3''])" by code_simp
  have h5: "(0::int) \<le> 2 \<and> ?inps \<noteq> [] \<and>
      read_all ?t ?inps = Inr ([[''0-'', ''-1''], [''2'', ''3'']], after_reads ?t ?inps)"
    using h1 by simp
  have h6: "fst (read ?t ''E|0-|\<newline>B|-1|\<newline>'') = Inr [''0-'', ''-1'']" by code_simp
  then have h7: "0 \<le> strings ?t \<and>
      read ?t ''E|0-|\<newline>B|-1|\<newline>'' = (Inr [''0-'', ''-1''], snd (read ?t ''E|0-|\<newline>B|-1|\<newline>''))"
    by (simp add: prod_eq_iff Tab_init_def)
  note inst = read_appends_roots [of ?t "''E|0-|\<newline>B|-1|\<newline>''" "[''0-'', ''-1'']"
      "snd (read ?t ''E|0-|\<newline>B|-1|\<newline>'')" 2 ?inps 16 "''4/3''"
      "[[''0-'', ''-1''], [''2'', ''3'']]" "after_reads ?t ?inps"]
  from inst h5
  have c1: "int (length (tab_roots (after_reads ?t ?inps))) = int (length ?inps) * 2" by blast
  from inst h7
  have c2: "tab (snd (read ?t ''E|0-|\<newline>B|-1|\<newline>'')) = [''0-'', ''-1'']" by blast
  from h1 h2 h3 h4 h6 c1 c2 show ?thesis by blast
qed

end
